theory Spec2Isabelle
  imports Main "HOL-Library.AList"
begin

section \<open>Data model\<close>

text \<open>
  The development covers \<^verbatim>\<open>services/sync.py\<close> (class \<^verbatim>\<open>SyncService\<close>), the
  playback writer of \<^verbatim>\<open>services/firebase_db.py\<close> and the two entry points of
  \<^verbatim>\<open>main.py\<close> that drive them (the \<^verbatim>\<open>/devices/set-active\<close> route and the
  \<^verbatim>\<open>/ws/{user_id}\<close> endpoint).

  A \<^verbatim>\<open>WebSocket\<close> object is compared by identity in the source
  (\<^verbatim>\<open>connection == sender\<close>, \<^verbatim>\<open>websocket in self.rooms[user_id]\<close>), so a connection
  is modelled by the number that identifies the object. A JSON payload is a small tree;
  a Python \<^verbatim>\<open>dict\<close> is an association list in insertion order.
\<close>

type_synonym user_id = string
type_synonym device_id = string
type_synonym websocket = nat

datatype json =
    JNull
  | JBool bool
  | JNum int
  | JStr string
  | JObj "(string \<times> json) list"

type_synonym pydict = "(string \<times> json) list"

text \<open>
  The state the service works on. \<open>rooms\<close> is
  \<^verbatim>\<open>self.rooms: dict[str, list[WebSocket]]\<close>, user id to the list of its sockets.
  \<open>accepted\<close> is the part of the sockets' own state that \<^verbatim>\<open>connect\<close> depends on:
  the sockets whose handshake has been completed by \<^verbatim>\<open>accept()\<close>.
\<close>

record server =
  rooms :: "user_id \<rightharpoonup> websocket list"
  accepted :: "websocket set"

definition room_of :: "server \<Rightarrow> user_id \<Rightarrow> websocket list" where
  "room_of s user_id = (case rooms s user_id of None \<Rightarrow> [] | Some conns \<Rightarrow> conns)"

text \<open>
  The transport is the environment: \<open>net c m = None\<close> when
  \<^verbatim>\<open>await c.send_json(m)\<close> returns, \<open>net c m = Some e\<close> when it raises the
  exception \<open>e\<close> (a closed or broken socket; such failures are instances of
  \<^verbatim>\<open>Exception\<close>, which is what the handlers in \<^verbatim>\<open>sync.py\<close> catch).
\<close>

type_synonym network = "websocket \<Rightarrow> json \<Rightarrow> string option"

text \<open>
  The persistent store is the environment as well: \<open>db path value = None\<close> when
  \<^verbatim>\<open>db.reference(path)\<close> and \<^verbatim>\<open>ref.set(value)\<close> both return,
  \<open>db path value = Some e\<close> when one of them raises \<open>e\<close> (the client library refuses
  a path that holds one of the characters \<^verbatim>\<open>[ ] . ? # $\<close> with a \<^verbatim>\<open>ValueError\<close>,
  and an unreachable store raises as well). Nothing in \<^verbatim>\<open>firebase_db.py\<close> or
  \<^verbatim>\<open>sync.py\<close> catches these.
\<close>

type_synonym store = "string \<Rightarrow> json \<Rightarrow> string option"

text \<open>
  What a call does to the outside world, in order: a message handed to a socket, a send
  that raised and was caught by the surrounding \<^verbatim>\<open>try/except Exception\<close> (which only
  prints), and a completed \<^verbatim>\<open>db.reference(path).set(value)\<close> on the persistent store.
\<close>

datatype effect =
    Sent websocket json
  | SendFailed websocket json string
  | DbSet string json

text \<open>How a call ends: with a return value, or with an exception raised to the caller.\<close>

datatype 'a outcome = Returned 'a | Raised string

fun send_calls :: "effect list \<Rightarrow> (websocket \<times> json) list" where
  "send_calls [] = []"
| "send_calls (Sent c m # es) = (c, m) # send_calls es"
| "send_calls (SendFailed c m e # es) = (c, m) # send_calls es"
| "send_calls (DbSet p v # es) = send_calls es"

fun delivered :: "effect list \<Rightarrow> (websocket \<times> json) list" where
  "delivered [] = []"
| "delivered (Sent c m # es) = (c, m) # delivered es"
| "delivered (SendFailed c m e # es) = delivered es"
| "delivered (DbSet p v # es) = delivered es"

fun db_writes :: "effect list \<Rightarrow> (string \<times> json) list" where
  "db_writes [] = []"
| "db_writes (Sent c m # es) = db_writes es"
| "db_writes (SendFailed c m e # es) = db_writes es"
| "db_writes (DbSet p v # es) = (p, v) # db_writes es"

section \<open>Device registry\<close>

text \<open>
  Modelled from the spec: \<^verbatim>\<open>services/device_manager.py\<close> is imported by
  \<^verbatim>\<open>sync.py\<close> and \<^verbatim>\<open>main.py\<close> but is not among the source files. Its state follows
  the specification's Device and UserDeviceState (``devices: mapping device_id to Device,
  active_device_id: optional device_id''), and the three functions the code under study
  calls follow the DeviceRegistry contract.
\<close>

record device =
  display_name :: string
  platform :: string
  user_agent :: string
  registered_at :: nat
  last_heartbeat_at :: nat

record user_device_state =
  devices :: "device_id \<rightharpoonup> device"
  active_device_id :: "device_id option"

type_synonym registry = "user_id \<rightharpoonup> user_device_state"

text \<open>
  Modelled from the spec: \<^verbatim>\<open>device_manager.get_active_device\<close> is not in the sources.
  ``getActive(user_id) -> optional device_id: none if never set or never registered.''
\<close>

definition get_active_device :: "registry \<Rightarrow> user_id \<Rightarrow> device_id option" where
  "get_active_device reg user_id =
     (case reg user_id of None \<Rightarrow> None | Some st \<Rightarrow> active_device_id st)"

text \<open>
  Modelled from the spec: \<^verbatim>\<open>device_manager.validate_device_control\<close> is not in the
  sources. ``validateControl(user_id, device_id) -> bool: true iff
  device_id == active_device_id for that user.''
\<close>

definition validate_device_control :: "registry \<Rightarrow> user_id \<Rightarrow> device_id \<Rightarrow> bool" where
  "validate_device_control reg user_id device_id =
     (get_active_device reg user_id = Some device_id)"

text \<open>
  Modelled from the spec: \<^verbatim>\<open>device_manager.set_active_device\<close> is not in the sources.
  ``setActive(user_id, device_id) -> bool: succeeds only if device_id is present in the
  user's devices; on success atomically overwrites active_device_id and returns true.
  Fails (returns false) with DeviceNotFound semantics if the device is unknown.''
  The result is the returned flag and the registry after the call.
\<close>

definition device_manager_set_active_device ::
  "registry \<Rightarrow> user_id \<Rightarrow> device_id \<Rightarrow> bool \<times> registry" where
  "device_manager_set_active_device reg user_id device_id =
     (case reg user_id of
        None \<Rightarrow> (False, reg)
      | Some st \<Rightarrow>
          (if devices st device_id = None then (False, reg)
           else (True, reg(user_id \<mapsto> st\<lparr>active_device_id := Some device_id\<rparr>))))"

section \<open>The connection rooms of \<^verbatim>\<open>SyncService\<close>\<close>

text \<open>
  \<^verbatim>\<open>connect\<close> starts with \<^verbatim>\<open>await websocket.accept()\<close>. The framework's socket
  accepts once: on a socket that has been accepted before, \<^verbatim>\<open>accept()\<close> raises
  \<^verbatim>\<open>RuntimeError\<close>, and the exception leaves \<^verbatim>\<open>connect\<close> before any change to
  \<^verbatim>\<open>rooms\<close>. Otherwise the socket is appended to the user's list, which is created
  when absent. There is no membership test before the append.
\<close>

definition connect :: "server \<Rightarrow> websocket \<Rightarrow> user_id \<Rightarrow> unit outcome \<times> server" where
  "connect s websocket user_id =
     (if websocket \<in> accepted s then (Raised ''RuntimeError'', s)
      else
        (let rooms1 = (if rooms s user_id = None then (rooms s)(user_id \<mapsto> []) else rooms s);
             conns = (case rooms1 user_id of None \<Rightarrow> [] | Some xs \<Rightarrow> xs)
         in (Returned (),
             s\<lparr>rooms := rooms1(user_id \<mapsto> conns @ [websocket]),
               accepted := insert websocket (accepted s)\<rparr>)))"

text \<open>
  \<^verbatim>\<open>disconnect\<close>: \<^verbatim>\<open>list.remove\<close> deletes the first occurrence only
  (\<^const>\<open>remove1\<close>); the user's entry is deleted when its list is empty afterwards.
\<close>

definition disconnect :: "server \<Rightarrow> websocket \<Rightarrow> user_id \<Rightarrow> server" where
  "disconnect s websocket user_id =
     (case rooms s user_id of
        None \<Rightarrow> s
      | Some conns \<Rightarrow>
          (let conns1 = (if websocket \<in> set conns then remove1 websocket conns else conns)
           in if conns1 = [] then s\<lparr>rooms := (rooms s)(user_id := None)\<rparr>
              else s\<lparr>rooms := (rooms s)(user_id \<mapsto> conns1)\<rparr>))"

text \<open>
  One guarded send: the body of \<^verbatim>\<open>try: await c.send_json(m) except Exception: print\<close>.
\<close>

definition try_send_json :: "network \<Rightarrow> json \<Rightarrow> websocket \<Rightarrow> effect" where
  "try_send_json net message connection =
     (case net connection message of
        None \<Rightarrow> Sent connection message
      | Some e \<Rightarrow> SendFailed connection message e)"

subsection \<open>The loop of \<^verbatim>\<open>broadcast_to_user\<close>\<close>

text \<open>
  \<^verbatim>\<open>for connection in self.rooms[user_id]\<close> evaluates the list object once and then
  walks it by position: each round tests \<open>i < len\<close> against the list as it is then,
  takes element \<open>i\<close> and advances. \<^verbatim>\<open>await connection.send_json(message)\<close> yields to
  the event loop, where the endpoint coroutines of other sockets may run
  \<^verbatim>\<open>disconnect\<close> (a \<^verbatim>\<open>remove\<close> on this very list) or \<^verbatim>\<open>connect\<close> (an
  \<^verbatim>\<open>append\<close> to it) for the same user.

  The walk holds the list object, not the dictionary entry. The two are the same list
  until a \<^verbatim>\<open>disconnect\<close> empties the list and deletes the entry; from then on the walk
  is detached: its list stays empty, and a later \<^verbatim>\<open>connect\<close> builds a new list that
  the walk never sees. The flag beside the server state says whether the walk is still
  attached.
\<close>

datatype room_op = Leave websocket | Join websocket

fun interfere :: "user_id \<Rightarrow> room_op \<Rightarrow> server \<times> bool \<Rightarrow> server \<times> bool" where
  "interfere user_id (Leave c) (s, attached) =
     (disconnect s c user_id, attached \<and> rooms (disconnect s c user_id) user_id \<noteq> None)"
| "interfere user_id (Join c) (s, attached) = (snd (connect s c user_id), attached)"

fun current_list :: "user_id \<Rightarrow> server \<times> bool \<Rightarrow> websocket list" where
  "current_list user_id (s, attached) = (if attached then room_of s user_id else [])"

text \<open>
  \<open>sched\<close> lists, for the first, second, ... awaited send, what the other coroutines
  do to the user's room during it; once it is used up nothing interferes any more.
  \<^verbatim>\<open>if sender and connection == sender: continue\<close> has no \<^verbatim>\<open>await\<close>; a
  \<^verbatim>\<open>WebSocket\<close> is truthy, so \<^verbatim>\<open>sender\<close> is falsy exactly when it is \<^verbatim>\<open>None\<close>.
  The result is the effects and the server state when the loop ends.
\<close>

function broadcast_walk ::
  "network \<Rightarrow> json \<Rightarrow> websocket option \<Rightarrow> user_id \<Rightarrow> server \<times> bool \<Rightarrow> nat
     \<Rightarrow> room_op list list \<Rightarrow> effect list \<times> server" where
  "broadcast_walk net message sender user_id st i [] =
     (if i < length (current_list user_id st) then
        (if sender \<noteq> None \<and> Some (current_list user_id st ! i) = sender
         then broadcast_walk net message sender user_id st (Suc i) []
         else (case broadcast_walk net message sender user_id st (Suc i) [] of
                 (evs, s1) \<Rightarrow>
                   (try_send_json net message (current_list user_id st ! i) # evs, s1)))
      else ([], fst st))"
| "broadcast_walk net message sender user_id st i (ops # later) =
     (if i < length (current_list user_id st) then
        (if sender \<noteq> None \<and> Some (current_list user_id st ! i) = sender
         then broadcast_walk net message sender user_id st (Suc i) (ops # later)
         else (case broadcast_walk net message sender user_id
                      (fold (interfere user_id) ops st) (Suc i) later of
                 (evs, s1) \<Rightarrow>
                   (try_send_json net message (current_list user_id st ! i) # evs, s1)))
      else ([], fst st))"
  by pat_completeness auto
termination
  by (relation "measures [\<lambda>(net, message, sender, user_id, st, i, sched). length sched,
                          \<lambda>(net, message, sender, user_id, st, i, sched).
                             length (current_list user_id st) - i]") auto

definition broadcast_to_user ::
  "network \<Rightarrow> server \<Rightarrow> user_id \<Rightarrow> json \<Rightarrow> websocket option \<Rightarrow> room_op list list
     \<Rightarrow> unit outcome \<times> effect list \<times> server" where
  "broadcast_to_user net s user_id message sender sched =
     (if rooms s user_id = None then (Returned (), [], s)
      else (Returned (), broadcast_walk net message sender user_id (s, True) 0 sched))"

section \<open>Playback updates\<close>

text \<open>
  \<^verbatim>\<open>FirebaseDB.set_playback_state\<close>: nothing happens for an empty user id. Otherwise
  the reference is taken, the dictionary is stamped in place with the server-timestamp
  sentinel and written to \<^verbatim>\<open>users/{user_id}/playback/current\<close>; an exception of the
  store leaves the function. The caller holds the same dictionary object, so on return
  the function hands it back as it is then.
\<close>

definition server_timestamp :: json where
  "server_timestamp = JObj [(''.sv'', JStr ''timestamp'')]"

definition playback_path :: "user_id \<Rightarrow> string" where
  "playback_path user_id = ''users/'' @ user_id @ ''/playback/current''"

definition set_playback_state :: "store \<Rightarrow> user_id \<Rightarrow> pydict \<Rightarrow> pydict outcome \<times> effect list" where
  "set_playback_state db user_id state =
     (if user_id = [] then (Returned state, [])
      else
        (let state1 = AList.update ''updatedAt'' server_timestamp state
         in (case db (playback_path user_id) (JObj state1) of
               None \<Rightarrow> (Returned state1, [DbSet (playback_path user_id) (JObj state1)])
             | Some e \<Rightarrow> (Raised e, []))))"

definition json_of_device :: "device_id option \<Rightarrow> json" where
  "json_of_device d = (case d of None \<Rightarrow> JNull | Some x \<Rightarrow> JStr x)"

definition playback_controlled_elsewhere :: "device_id option \<Rightarrow> json" where
  "playback_controlled_elsewhere active_device =
     JObj [(''type'', JStr ''playback_controlled_elsewhere''),
           (''active_device_id'', json_of_device active_device),
           (''message'', JStr ''Playback is controlled on another device'')]"

definition playback_state_update :: "pydict \<Rightarrow> json" where
  "playback_state_update state =
     JObj [(''type'', JStr ''playback_state_update''), (''state'', JObj state)]"

text \<open>
  \<^verbatim>\<open>handle_playback_update\<close>. \<open>sched\<close> is what the other coroutines do during the
  sends of the broadcast. An exception of the store leaves the function before the
  broadcast.
\<close>

definition handle_playback_update ::
  "network \<Rightarrow> store \<Rightarrow> registry \<Rightarrow> server \<Rightarrow> user_id \<Rightarrow> device_id \<Rightarrow> pydict
     \<Rightarrow> websocket option \<Rightarrow> room_op list list \<Rightarrow> bool outcome \<times> effect list" where
  "handle_playback_update net db reg s user_id device_id state sender sched =
     (if \<not> validate_device_control reg user_id device_id then
        (let active_device = get_active_device reg user_id
         in (Returned False,
             (case sender of
                None \<Rightarrow> []
              | Some c \<Rightarrow> [try_send_json net (playback_controlled_elsewhere active_device) c])))
      else
        (case set_playback_state db user_id state of
           (Raised e, written) \<Rightarrow> (Raised e, written)
         | (Returned state1, written) \<Rightarrow>
             (case broadcast_to_user net s user_id (playback_state_update state1) sender sched of
                (Returned u, evs, s1) \<Rightarrow> (Returned True, written @ evs)
              | (Raised e, evs, s1) \<Rightarrow> (Raised e, written @ evs))))"

definition device_switched :: "device_id \<Rightarrow> json" where
  "device_switched new_active_device_id =
     JObj [(''type'', JStr ''device_switched''),
           (''active_device_id'', JStr new_active_device_id),
           (''message'', JStr (''Playback control switched to device '' @ new_active_device_id))]"

definition broadcast_device_switch ::
  "network \<Rightarrow> server \<Rightarrow> user_id \<Rightarrow> device_id \<Rightarrow> room_op list list
     \<Rightarrow> unit outcome \<times> effect list \<times> server" where
  "broadcast_device_switch net s user_id new_active_device_id sched =
     broadcast_to_user net s user_id (device_switched new_active_device_id) None sched"

section \<open>Entry points of \<^verbatim>\<open>main.py\<close>\<close>

datatype http_result = Response pydict | HTTPException nat string

text \<open>
  \<^verbatim>\<open>POST /devices/set-active\<close>. The result is the HTTP answer, the registry after the
  call and the effects.
\<close>

definition set_active_device ::
  "network \<Rightarrow> registry \<Rightarrow> server \<Rightarrow> user_id \<Rightarrow> device_id \<Rightarrow> room_op list list
     \<Rightarrow> http_result outcome \<times> registry \<times> effect list" where
  "set_active_device net reg s user_id device_id sched =
     (case device_manager_set_active_device reg user_id device_id of
        (success, reg1) \<Rightarrow>
          (if success then
             (case broadcast_device_switch net s user_id device_id sched of
                (Returned u, evs, s1) \<Rightarrow>
                  (Returned (Response [(''status'', JStr ''active_device_set''),
                                       (''device_id'', JStr device_id)]), reg1, evs)
              | (Raised e, evs, s1) \<Rightarrow> (Raised e, reg1, evs))
           else (Returned (HTTPException 404 ''Device not found''), reg1, [])))"

text \<open>
  \<^verbatim>\<open>websocket_endpoint\<close>: join the room (outside the \<^verbatim>\<open>try\<close>, so a raising
  \<^verbatim>\<open>connect\<close> ends the endpoint), then relay every received frame with
  \<^verbatim>\<open>broadcast_to_user(user_id, data, sender=websocket)\<close> until
  \<^verbatim>\<open>receive_json\<close> raises, then leave the room; both \<^verbatim>\<open>except\<close> branches call
  \<^verbatim>\<open>disconnect\<close>. \<open>frames\<close> are the frames received before that exception, each
  with what the other coroutines do during its relay.
\<close>

fun receive_loop ::
  "network \<Rightarrow> server \<Rightarrow> websocket \<Rightarrow> user_id \<Rightarrow> (json \<times> room_op list list) list
     \<Rightarrow> effect list \<times> server" where
  "receive_loop net s websocket user_id [] = ([], s)"
| "receive_loop net s websocket user_id ((data, sched) # frames) =
     (case broadcast_to_user net s user_id data (Some websocket) sched of
        (r, evs, s1) \<Rightarrow>
          (case receive_loop net s1 websocket user_id frames of
             (evs2, s2) \<Rightarrow> (evs @ evs2, s2)))"

definition websocket_endpoint ::
  "network \<Rightarrow> server \<Rightarrow> websocket \<Rightarrow> user_id \<Rightarrow> (json \<times> room_op list list) list
     \<Rightarrow> unit outcome \<times> effect list \<times> server" where
  "websocket_endpoint net s websocket user_id frames =
     (case connect s websocket user_id of
        (Raised e, s1) \<Rightarrow> (Raised e, [], s1)
      | (Returned u, s1) \<Rightarrow>
          (case receive_loop net s1 websocket user_id frames of
             (evs, s2) \<Rightarrow> (Returned (), evs, disconnect s2 websocket user_id)))"

section \<open>States the service can be in\<close>

text \<open>
  The service starts with no room and no accepted socket, and \<^verbatim>\<open>rooms\<close> is written
  by \<^verbatim>\<open>connect\<close> and \<^verbatim>\<open>disconnect\<close> only.
\<close>

definition initial_server :: server where
  "initial_server = \<lparr>rooms = Map.empty, accepted = {}\<rparr>"

inductive reachable :: "server \<Rightarrow> bool" where
  start: "reachable initial_server"
| joined: "reachable s \<Longrightarrow> reachable (snd (connect s websocket user_id))"
| left: "reachable s \<Longrightarrow> reachable (disconnect s websocket user_id)"

text \<open>Every room that exists is non-empty.\<close>

definition rooms_inv :: "server \<Rightarrow> bool" where
  "rooms_inv s = (\<forall>u conns. rooms s u = Some conns \<longrightarrow> conns \<noteq> [])"

text \<open>No room holds a socket twice, and every socket in a room has been accepted.\<close>

definition rooms_wf :: "server \<Rightarrow> bool" where
  "rooms_wf s = (\<forall>u. distinct (room_of s u) \<and> set (room_of s u) \<subseteq> accepted s)"



text \<open>
  Modelled from the spec: the registry's state is not in the sources. A device is
  registered for a user when ``device_id is present in the user's devices''.
\<close>

definition is_registered :: "registry \<Rightarrow> user_id \<Rightarrow> device_id \<Rightarrow> bool" where
  "is_registered reg user_id device_id =
     (case reg user_id of None \<Rightarrow> False | Some st \<Rightarrow> devices st device_id \<noteq> None)"



definition targets :: "effect list \<Rightarrow> websocket set" where
  "targets evs = fst ` set (send_calls evs)"

section \<open>A concrete session\<close>

text \<open>
  The scenario used for the concrete runs below: user \<open>U\<close> has registered the devices
  \<open>D1\<close> and \<open>D2\<close>, \<open>D1\<close> is the active one, and the sockets \<open>1\<close> and \<open>2\<close> (in
  \<open>three_sockets\<close> also \<open>3\<close>) are connected. On \<open>healthy\<close> every send returns; on
  \<open>socket_1_closed\<close> every send to socket \<open>1\<close> raises. \<open>path_checking_store\<close>
  accepts every write but those to a path with a character the client library refuses.
\<close>

definition example_device :: device where
  "example_device =
     \<lparr>display_name = ''phone'', platform = ''web'', user_agent = [],
      registered_at = 0, last_heartbeat_at = 0\<rparr>"

definition scenario_registry :: registry where
  "scenario_registry =
     [''U'' \<mapsto> \<lparr>devices = [''D1'' \<mapsto> example_device, ''D2'' \<mapsto> example_device],
               active_device_id = Some ''D1''\<rparr>]"

definition scenario_server :: server where
  "scenario_server = \<lparr>rooms = [''U'' \<mapsto> [1, 2]], accepted = {1, 2}\<rparr>"

definition three_sockets :: server where
  "three_sockets = \<lparr>rooms = [''U'' \<mapsto> [1, 2, 3]], accepted = {1, 2, 3}\<rparr>"

definition scenario_state :: pydict where
  "scenario_state = [(''trackId'', JStr ''t1''), (''positionSec'', JNum 10), (''isPlaying'', JBool True)]"

definition healthy :: network where
  "healthy = (\<lambda>c m. None)"

definition socket_1_closed :: network where
  "socket_1_closed = (\<lambda>c m. if c = 1 then Some ''closed'' else None)"

definition path_checking_store :: store where
  "path_checking_store =
     (\<lambda>path value. if list_ex (\<lambda>ch. ch \<in> set ''[].?#$'') path then Some ''ValueError'' else None)"

section \<open>Basic facts\<close>

declare broadcast_walk.simps [simp del]

lemma room_of_connect:
  "room_of (snd (connect s c u)) u =
     (if c \<in> accepted s then room_of s u else room_of s u @ [c])"
  by (auto simp: connect_def room_of_def Let_def split: option.splits)

lemma room_of_connect_other: "v \<noteq> u \<Longrightarrow> room_of (snd (connect s c u)) v = room_of s v"
  by (auto simp: connect_def room_of_def Let_def split: option.splits)

lemma accepted_connect:
  "accepted (snd (connect s c u)) = insert c (accepted s)"
  by (auto simp: connect_def Let_def)

lemma room_of_disconnect: "room_of (disconnect s c u) u = remove1 c (room_of s u)"
  by (auto simp: disconnect_def room_of_def Let_def remove1_idem split: option.splits)

lemma room_of_disconnect_other: "v \<noteq> u \<Longrightarrow> room_of (disconnect s c u) v = room_of s v"
  by (auto simp: disconnect_def room_of_def Let_def split: option.splits)

lemma accepted_disconnect: "accepted (disconnect s c u) = accepted s"
  by (auto simp: disconnect_def Let_def split: option.splits)

lemma rooms_disconnect_None:
  "rooms (disconnect s c u) u = None \<Longrightarrow> room_of (disconnect s c u) u = []"
  by (simp add: room_of_def)

lemma rooms_inv_connect: "rooms_inv s \<Longrightarrow> rooms_inv (snd (connect s c u))"
  by (auto simp: rooms_inv_def connect_def Let_def split: if_splits option.splits)

lemma rooms_inv_disconnect: "rooms_inv s \<Longrightarrow> rooms_inv (disconnect s c u)"
  by (auto simp: rooms_inv_def disconnect_def Let_def split: option.splits if_splits)

lemma rooms_wf_connect: "rooms_wf s \<Longrightarrow> rooms_wf (snd (connect s c u))"
  unfolding rooms_wf_def
proof (intro allI)
  fix v
  assume wf: "\<forall>u. distinct (room_of s u) \<and> set (room_of s u) \<subseteq> accepted s"
  show "distinct (room_of (snd (connect s c u)) v) \<and>
        set (room_of (snd (connect s c u)) v) \<subseteq> accepted (snd (connect s c u))"
  proof (cases "v = u")
    case True
    with wf show ?thesis by (auto simp: room_of_connect accepted_connect)
  next
    case False
    with wf show ?thesis by (auto simp: room_of_connect_other accepted_connect)
  qed
qed

lemma rooms_wf_disconnect: "rooms_wf s \<Longrightarrow> rooms_wf (disconnect s c u)"
  unfolding rooms_wf_def
proof (intro allI)
  fix v
  assume wf: "\<forall>u. distinct (room_of s u) \<and> set (room_of s u) \<subseteq> accepted s"
  show "distinct (room_of (disconnect s c u) v) \<and>
        set (room_of (disconnect s c u) v) \<subseteq> accepted (disconnect s c u)"
  proof (cases "v = u")
    case True
    with wf show ?thesis
      using set_remove1_subset [of c "room_of s u"]
      by (auto simp: room_of_disconnect accepted_disconnect)
  next
    case False
    with wf show ?thesis by (auto simp: room_of_disconnect_other accepted_disconnect)
  qed
qed

lemma reachable_inv: "reachable s \<Longrightarrow> rooms_inv s \<and> rooms_wf s"
proof (induction rule: reachable.induct)
  case start
  show ?case by (simp add: initial_server_def rooms_inv_def rooms_wf_def room_of_def)
next
  case (joined s websocket user_id)
  then show ?case by (simp add: rooms_inv_connect rooms_wf_connect)
next
  case (left s websocket user_id)
  then show ?case by (simp add: rooms_inv_disconnect rooms_wf_disconnect)
qed

text \<open>The list under the walk after one step of another coroutine.\<close>

lemma current_list_interfere:
  "current_list u (interfere u op (s, a)) =
     (if a then (case op of
                   Leave c \<Rightarrow> remove1 c (room_of s u)
                 | Join c \<Rightarrow> if c \<in> accepted s then room_of s u else room_of s u @ [c])
      else [])"
  by (cases op) (auto simp: room_of_disconnect room_of_connect rooms_disconnect_None
       simp flip: room_of_disconnect)

lemma reachable_interfere: "reachable (fst st) \<Longrightarrow> reachable (fst (interfere u op st))"
  by (cases op; cases st) (auto intro: reachable.intros)

lemma reachable_fold_interfere:
  "reachable (fst st) \<Longrightarrow> reachable (fst (fold (interfere u) ops st))"
  by (induction ops arbitrary: st) (auto simp: reachable_interfere)

lemma reachable_broadcast_walk:
  "reachable (fst st) \<Longrightarrow> reachable (snd (broadcast_walk net message sender u st i sched))"
proof (induction net message sender u st i sched rule: broadcast_walk.induct)
  case (1 net message sender u st i)
  then show ?case
    by (subst broadcast_walk.simps) (auto split: prod.splits)
next
  case (2 net message sender u st i ops later)
  then show ?case
    by (subst broadcast_walk.simps) (auto split: prod.splits simp: reachable_fold_interfere)
qed


lemma send_calls_try [simp]:
  "send_calls (try_send_json net message c # evs) = (c, message) # send_calls evs"
  by (simp add: try_send_json_def split: option.splits)

lemma db_writes_try [simp]: "db_writes (try_send_json net message c # evs) = db_writes evs"
  by (simp add: try_send_json_def split: option.splits)



lemma set_drop_remove1: "set (drop k (remove1 c xs)) \<subseteq> set (drop k xs)"
proof (induction xs arbitrary: k)
  case Nil
  then show ?case by simp
next
  case (Cons x xs)
  show ?case
  proof (cases k)
    case 0
    then show ?thesis using set_remove1_subset [of c "x # xs"] by simp
  next
    case (Suc j)
    show ?thesis
    proof (cases "x = c")
      case True
      then show ?thesis using Suc set_drop_subset_set_drop [of j "Suc j" xs] by simp
    next
      case False
      then show ?thesis using Suc Cons.IH [of j] by simp
    qed
  qed
qed

lemma set_drop_snoc: "set (drop k (xs @ [c])) \<subseteq> insert c (set (drop k xs))"
  by (auto dest: in_set_dropD)

lemma nth_notin_drop_Suc:
  "distinct xs \<Longrightarrow> i < length xs \<Longrightarrow> xs ! i \<notin> set (drop (Suc i) xs)"
proof -
  assume d: "distinct xs" and i: "i < length xs"
  have "xs = take i xs @ xs ! i # drop (Suc i) xs" using i by (rule id_take_nth_drop)
  then have "distinct (take i xs @ xs ! i # drop (Suc i) xs)" using d by simp
  then show ?thesis by simp
qed

subsection \<open>A walk that nobody leaves\<close>




subsection \<open>One round of the walk\<close>

lemma targets_simps [simp]:
  "targets [] = {}"
  "targets (try_send_json net message c # evs) = insert c (targets evs)"
  by (simp_all add: targets_def)

lemma walk_done:
  "\<not> i < length (current_list u st) \<Longrightarrow>
   fst (broadcast_walk net message sender u st i sched) = []"
  by (cases sched) (simp_all add: broadcast_walk.simps)

lemma walk_skip:
  "i < length (current_list u st) \<Longrightarrow>
   sender \<noteq> None \<and> Some (current_list u st ! i) = sender \<Longrightarrow>
   fst (broadcast_walk net message sender u st i sched) =
     fst (broadcast_walk net message sender u st (Suc i) sched)"
  by (cases sched) (simp_all add: broadcast_walk.simps)

lemma walk_send_nil:
  "i < length (current_list u st) \<Longrightarrow>
   \<not> (sender \<noteq> None \<and> Some (current_list u st ! i) = sender) \<Longrightarrow>
   fst (broadcast_walk net message sender u st i []) =
     try_send_json net message (current_list u st ! i) #
       fst (broadcast_walk net message sender u st (Suc i) [])"
  by (subst broadcast_walk.simps) (auto split: prod.splits)

lemma walk_send_cons:
  "i < length (current_list u st) \<Longrightarrow>
   \<not> (sender \<noteq> None \<and> Some (current_list u st ! i) = sender) \<Longrightarrow>
   fst (broadcast_walk net message sender u st i (ops # later)) =
     try_send_json net message (current_list u st ! i) #
       fst (broadcast_walk net message sender u (fold (interfere u) ops st) (Suc i) later)"
  by (subst broadcast_walk.simps) (auto split: prod.splits)

subsection \<open>No socket is visited twice\<close>

lemma current_list_wf:
  "rooms_wf (fst st) \<Longrightarrow>
   distinct (current_list u st) \<and> set (current_list u st) \<subseteq> accepted (fst st)"
  by (cases st) (auto simp: rooms_wf_def)

lemma interfere_keeps_visited:
  assumes "rooms_wf (fst st)" and "V \<subseteq> accepted (fst st)"
    and "V \<inter> set (drop k (current_list u st)) = {}"
  shows "rooms_wf (fst (interfere u op st)) \<and> V \<subseteq> accepted (fst (interfere u op st))
       \<and> V \<inter> set (drop k (current_list u (interfere u op st))) = {}"
proof -
  obtain s a where st: "st = (s, a)" by (cases st)
  show ?thesis
  proof (cases op)
    case (Leave c)
    have "set (drop k (current_list u (interfere u op st))) \<subseteq> set (drop k (current_list u st))"
      using set_drop_remove1 [of k c "room_of s u"]
      unfolding st current_list_interfere Leave by simp
    then have "V \<inter> set (drop k (current_list u (interfere u op st))) = {}"
      using assms(3) by blast
    with assms(1,2) show ?thesis
      by (simp add: st Leave rooms_wf_disconnect accepted_disconnect)
  next
    case (Join c)
    have "set (drop k (current_list u (interfere u op st))) \<subseteq>
            set (drop k (current_list u st)) \<union> ({c} - accepted s)"
      using set_drop_snoc [of k "room_of s u" c]
      unfolding st current_list_interfere Join by auto
    then have "V \<inter> set (drop k (current_list u (interfere u op st))) = {}"
      using assms(2,3) unfolding st by auto
    with assms(1,2) show ?thesis
      by (auto simp: st Join rooms_wf_connect accepted_connect)
  qed
qed

lemma fold_interfere_keeps_visited:
  "rooms_wf (fst st) \<Longrightarrow> V \<subseteq> accepted (fst st) \<Longrightarrow>
   V \<inter> set (drop k (current_list u st)) = {} \<Longrightarrow>
   rooms_wf (fst (fold (interfere u) ops st)) \<and> V \<subseteq> accepted (fst (fold (interfere u) ops st))
     \<and> V \<inter> set (drop k (current_list u (fold (interfere u) ops st))) = {}"
proof (induction ops arbitrary: st)
  case Nil
  then show ?case by simp
next
  case (Cons op ops)
  from interfere_keeps_visited [OF Cons.prems, of op]
  show ?case using Cons.IH [of "interfere u op st"] by simp
qed

lemma walk_visits_once:
  "rooms_wf (fst st) \<Longrightarrow> V \<subseteq> accepted (fst st) \<Longrightarrow>
   V \<inter> set (drop i (current_list u st)) = {} \<Longrightarrow>
   distinct (map fst (send_calls (fst (broadcast_walk net message sender u st i sched))))
     \<and> targets (fst (broadcast_walk net message sender u st i sched)) \<inter> V = {}"
proof (induction net message sender u st i sched arbitrary: V rule: broadcast_walk.induct)
  case (1 net message sender u st i)
  show ?case
  proof (cases "i < length (current_list u st)")
    case False
    then show ?thesis by (simp add: walk_done)
  next
    case lt: True
    let ?L = "current_list u st"
    have sub: "set (drop (Suc i) ?L) \<subseteq> set (drop i ?L)"
      by (rule set_drop_subset_set_drop) simp
    have here: "?L ! i \<in> set (drop i ?L)"
      using lt by (simp add: Cons_nth_drop_Suc [symmetric])
    show ?thesis
    proof (cases "sender \<noteq> None \<and> Some (?L ! i) = sender")
      case True
      have "V \<inter> set (drop (Suc i) ?L) = {}" using "1.prems"(3) sub by blast
      from "1.IH"(1) [OF lt True "1.prems"(1,2) this] show ?thesis
        by (simp only: walk_skip [OF lt True])
    next
      case False
      have wf: "distinct ?L" "set ?L \<subseteq> accepted (fst st)"
        using current_list_wf [OF "1.prems"(1)] by auto
      have V': "insert (?L ! i) V \<subseteq> accepted (fst st)"
        using "1.prems"(2) wf(2) lt by auto
      have disj: "insert (?L ! i) V \<inter> set (drop (Suc i) ?L) = {}"
        using "1.prems"(3) sub nth_notin_drop_Suc [OF wf(1) lt] by blast
      let ?rest = "fst (broadcast_walk net message sender u st (Suc i) [])"
      from "1.IH"(2) [OF lt False "1.prems"(1) V' disj]
      have ih: "distinct (map fst (send_calls ?rest))"
        "targets ?rest \<inter> insert (?L ! i) V = {}"
        by auto
      have notV: "?L ! i \<notin> V" using "1.prems"(3) here by blast
      have a: "?L ! i \<notin> fst ` set (send_calls ?rest)"
        using ih(2) by (auto simp: targets_def)
      have b: "insert (?L ! i) (targets ?rest) \<inter> V = {}"
        using ih(2) notV by blast
      from ih(1) a b show ?thesis
        by (simp add: walk_send_nil [OF lt False])
    qed
  qed
next
  case (2 net message sender u st i ops later)
  show ?case
  proof (cases "i < length (current_list u st)")
    case False
    then show ?thesis by (simp add: walk_done)
  next
    case lt: True
    let ?L = "current_list u st"
    let ?st' = "fold (interfere u) ops st"
    have sub: "set (drop (Suc i) ?L) \<subseteq> set (drop i ?L)"
      by (rule set_drop_subset_set_drop) simp
    have here: "?L ! i \<in> set (drop i ?L)"
      using lt by (simp add: Cons_nth_drop_Suc [symmetric])
    show ?thesis
    proof (cases "sender \<noteq> None \<and> Some (?L ! i) = sender")
      case True
      have "V \<inter> set (drop (Suc i) ?L) = {}" using "2.prems"(3) sub by blast
      from "2.IH"(1) [OF lt True "2.prems"(1,2) this] show ?thesis
        by (simp only: walk_skip [OF lt True])
    next
      case False
      have wf: "distinct ?L" "set ?L \<subseteq> accepted (fst st)"
        using current_list_wf [OF "2.prems"(1)] by auto
      have V': "insert (?L ! i) V \<subseteq> accepted (fst st)"
        using "2.prems"(2) wf(2) lt by auto
      have disj: "insert (?L ! i) V \<inter> set (drop (Suc i) ?L) = {}"
        using "2.prems"(3) sub nth_notin_drop_Suc [OF wf(1) lt] by blast
      from fold_interfere_keeps_visited [OF "2.prems"(1) V' disj, of ops]
      have k: "rooms_wf (fst ?st')" "insert (?L ! i) V \<subseteq> accepted (fst ?st')"
        "insert (?L ! i) V \<inter> set (drop (Suc i) (current_list u ?st')) = {}"
        by auto
      let ?rest = "fst (broadcast_walk net message sender u ?st' (Suc i) later)"
      from "2.IH"(2) [OF lt False k]
      have ih: "distinct (map fst (send_calls ?rest))"
        "targets ?rest \<inter> insert (?L ! i) V = {}"
        by auto
      have notV: "?L ! i \<notin> V" using "2.prems"(3) here by blast
      have a: "?L ! i \<notin> fst ` set (send_calls ?rest)"
        using ih(2) by (auto simp: targets_def)
      have b: "insert (?L ! i) (targets ?rest) \<inter> V = {}"
        using ih(2) notV by blast
      from ih(1) a b show ?thesis
        by (simp add: walk_send_cons [OF lt False])
    qed
  qed
qed

subsection \<open>A socket that has left is not visited\<close>

lemma interfere_keeps_out:
  assumes "w \<in> accepted (fst st)" and "w \<notin> set (current_list u st)"
  shows "w \<in> accepted (fst (interfere u op st)) \<and> w \<notin> set (current_list u (interfere u op st))"
proof -
  obtain s a where st: "st = (s, a)" by (cases st)
  show ?thesis
  proof (cases op)
    case (Leave c)
    have "w \<notin> set (current_list u (interfere u op st))"
      using assms(2) set_remove1_subset [of c "room_of s u"]
      unfolding st current_list_interfere Leave by auto
    with assms(1) show ?thesis by (simp add: st Leave accepted_disconnect)
  next
    case (Join c)
    have "w \<notin> set (current_list u (interfere u op st))"
      using assms unfolding st current_list_interfere Join by auto
    with assms(1) show ?thesis by (auto simp: st Join accepted_connect)
  qed
qed

lemma fold_interfere_keeps_out:
  "w \<in> accepted (fst st) \<Longrightarrow> w \<notin> set (current_list u st) \<Longrightarrow>
   w \<in> accepted (fst (fold (interfere u) ops st))
     \<and> w \<notin> set (current_list u (fold (interfere u) ops st))"
proof (induction ops arbitrary: st)
  case Nil
  then show ?case by simp
next
  case (Cons op ops)
  from interfere_keeps_out [OF Cons.prems, of op]
  show ?case using Cons.IH [of "interfere u op st"] by simp
qed

lemma walk_keeps_out:
  "w \<in> accepted (fst st) \<Longrightarrow> w \<notin> set (current_list u st) \<Longrightarrow>
   w \<notin> targets (fst (broadcast_walk net message sender u st i sched))"
proof (induction net message sender u st i sched rule: broadcast_walk.induct)
  case (1 net message sender u st i)
  show ?case
  proof (cases "i < length (current_list u st)")
    case False
    then show ?thesis by (simp add: walk_done)
  next
    case lt: True
    then have ne: "current_list u st ! i \<noteq> w" using "1.prems"(2) by auto
    show ?thesis
    proof (cases "sender \<noteq> None \<and> Some (current_list u st ! i) = sender")
      case True
      from "1.IH"(1) [OF lt True "1.prems"] show ?thesis
        by (simp add: walk_skip [OF lt True])
    next
      case False
      from "1.IH"(2) [OF lt False "1.prems"] ne show ?thesis
        by (simp add: walk_send_nil [OF lt False])
    qed
  qed
next
  case (2 net message sender u st i ops later)
  show ?case
  proof (cases "i < length (current_list u st)")
    case False
    then show ?thesis by (simp add: walk_done)
  next
    case lt: True
    then have ne: "current_list u st ! i \<noteq> w" using "2.prems"(2) by auto
    show ?thesis
    proof (cases "sender \<noteq> None \<and> Some (current_list u st ! i) = sender")
      case True
      from "2.IH"(1) [OF lt True "2.prems"] show ?thesis
        by (simp add: walk_skip [OF lt True])
    next
      case False
      from fold_interfere_keeps_out [OF "2.prems", of ops]
      have k: "w \<in> accepted (fst (fold (interfere u) ops st))"
        "w \<notin> set (current_list u (fold (interfere u) ops st))" by auto
      from "2.IH"(2) [OF lt False k] ne show ?thesis
        by (simp add: walk_send_cons [OF lt False])
    qed
  qed
qed

subsection \<open>Effects of a whole broadcast\<close>


lemma broadcast_to_user_effects:
  "fst (snd (broadcast_to_user net s u message sender sched)) =
     (if rooms s u = None then []
      else fst (broadcast_walk net message sender u (s, True) 0 sched))"
  by (simp add: broadcast_to_user_def)

lemma broadcast_to_user_server:
  "snd (snd (broadcast_to_user net s u message sender sched)) =
     (if rooms s u = None then s
      else snd (broadcast_walk net message sender u (s, True) 0 sched))"
  by (simp add: broadcast_to_user_def)


lemma broadcast_visits_once:
  assumes "rooms_wf s"
  shows "distinct (map fst (send_calls (fst (snd (broadcast_to_user net s u message sender sched)))))"
proof (cases "rooms s u = None")
  case True
  then show ?thesis by (simp add: broadcast_to_user_effects)
next
  case False
  from walk_visits_once [of "(s, True)" "{}" 0 u net message sender sched] assms
  have "distinct (map fst (send_calls (fst (broadcast_walk net message sender u (s, True) 0 sched))))"
    by simp
  with False show ?thesis by (simp add: broadcast_to_user_effects)
qed

lemma broadcast_keeps_out:
  assumes "w \<in> accepted s" and "w \<notin> set (room_of s u)"
  shows "w \<notin> targets (fst (snd (broadcast_to_user net s u message sender sched)))"
proof (cases "rooms s u = None")
  case True
  then show ?thesis by (simp add: broadcast_to_user_effects)
next
  case False
  from walk_keeps_out [of w "(s, True)" u net message sender 0 sched] assms
  have "w \<notin> targets (fst (broadcast_walk net message sender u (s, True) 0 sched))"
    by simp
  with False show ?thesis by (simp add: broadcast_to_user_effects)
qed

lemma reachable_after_broadcast:
  assumes "reachable s"
  shows "reachable (snd (snd (broadcast_to_user net s u message sender sched)))"
  using assms reachable_broadcast_walk [of "(s, True)" net message sender u 0 sched]
  by (simp add: broadcast_to_user_server)

section \<open>Arbitration of playback updates\<close>



text \<open>
  Claim C10. The same rejection with no sender connection (\<^verbatim>\<open>sender=None\<close>): the call
  returns \<^verbatim>\<open>False\<close> and has no effect at all, so no message is sent to anyone.
\<close>

theorem rejected_update_without_sender_is_silent:
  assumes "\<not> validate_device_control reg user_id device_id"
  shows "handle_playback_update net db reg s user_id device_id state None sched =
           (Returned False, [])"
  using assms by (simp add: handle_playback_update_def)

theorem rejected_update_without_sender_is_silent_witness:
  "\<not> validate_device_control scenario_registry ''U'' ''D2''
   \<and> handle_playback_update healthy path_checking_store scenario_registry scenario_server
        ''U'' ''D2'' scenario_state None [] = (Returned False, [])"
proof -
  have h: "\<not> validate_device_control scenario_registry ''U'' ''D2''"
    by (simp add: validate_device_control_def get_active_device_def scenario_registry_def)
  show ?thesis
    using h rejected_update_without_sender_is_silent
      [OF h, of healthy path_checking_store scenario_server scenario_state "[]"]
    by simp
qed




section \<open>Switching the active device\<close>

text \<open>
  Claim C6. For a device that is not registered for the user, setting it active returns
  false and leaves the registry, hence the active device, as it was; the route answers
  with the 404 ``Device not found'' and has no effect, so no \<^verbatim>\<open>device_switched\<close>
  message is sent.
\<close>

theorem unregistered_device_is_refused:
  assumes "\<not> is_registered reg user_id device_id"
  shows "device_manager_set_active_device reg user_id device_id = (False, reg)
       \<and> get_active_device (snd (device_manager_set_active_device reg user_id device_id)) user_id =
           get_active_device reg user_id
       \<and> set_active_device net reg s user_id device_id sched =
           (Returned (HTTPException 404 ''Device not found''), reg, [])"
  using assms
  by (auto simp: is_registered_def set_active_device_def device_manager_set_active_device_def
        split: option.splits)

theorem unregistered_device_is_refused_witness:
  "\<not> is_registered scenario_registry ''U'' ''D9''
   \<and> get_active_device (snd (device_manager_set_active_device scenario_registry ''U'' ''D9'')) ''U'' =
       Some ''D1''
   \<and> set_active_device healthy scenario_registry scenario_server ''U'' ''D9'' [] =
       (Returned (HTTPException 404 ''Device not found''), scenario_registry, [])"
proof -
  have h: "\<not> is_registered scenario_registry ''U'' ''D9''"
    by (simp add: is_registered_def scenario_registry_def)
  have a: "get_active_device scenario_registry ''U'' = Some ''D1''"
    by (simp add: get_active_device_def scenario_registry_def)
  show ?thesis
    using h a unregistered_device_is_refused [OF h, of healthy scenario_server "[]"]
    by simp
qed

text \<open>
  Claim C4, evaluated on the code. Sockets \<open>1\<close>, \<open>2\<close> and \<open>3\<close> are connected for
  \<open>U\<close> and the registered device \<open>D2\<close> is set active. The request succeeds and the
  \<^verbatim>\<open>device_switched\<close> event is sent to socket \<open>1\<close>; socket \<open>1\<close> closes during that
  send and its endpoint runs \<^verbatim>\<open>disconnect\<close>; the loop goes on at position one of the
  shortened list, which is socket \<open>3\<close>. Socket \<open>2\<close>, connected from start to end,
  gets no event.
\<close>

theorem device_switch_passes_over_a_connection:
  "is_registered scenario_registry ''U'' ''D2''
   \<and> room_of three_sockets ''U'' = [1, 2, 3]
   \<and> fst (set_active_device healthy scenario_registry three_sockets ''U'' ''D2'' [[Leave 1]]) =
       Returned (Response [(''status'', JStr ''active_device_set''), (''device_id'', JStr ''D2'')])
   \<and> snd (snd (set_active_device healthy scenario_registry three_sockets ''U'' ''D2'' [[Leave 1]])) =
       [Sent 1 (JObj [(''type'', JStr ''device_switched''), (''active_device_id'', JStr ''D2''),
                      (''message'', JStr ''Playback control switched to device D2'')]),
        Sent 3 (JObj [(''type'', JStr ''device_switched''), (''active_device_id'', JStr ''D2''),
                      (''message'', JStr ''Playback control switched to device D2'')])]
   \<and> 2 \<notin> targets (snd (snd
         (set_active_device healthy scenario_registry three_sockets ''U'' ''D2'' [[Leave 1]])))
   \<and> snd (snd (set_active_device healthy scenario_registry three_sockets ''U'' ''D2'' [])) =
       [Sent 1 (device_switched ''D2''), Sent 2 (device_switched ''D2''),
        Sent 3 (device_switched ''D2'')]"
  by (simp add: is_registered_def scenario_registry_def set_active_device_def
        device_manager_set_active_device_def broadcast_device_switch_def broadcast_to_user_def
        broadcast_walk.simps disconnect_def room_of_def three_sockets_def device_switched_def
        try_send_json_def healthy_def targets_def Let_def)

section \<open>Broadcast while the room changes\<close>

text \<open>
  Claim C5, evaluated on the code. \<^verbatim>\<open>broadcast_to_user\<close> takes no snapshot: it walks
  the live list by position. Socket \<open>1\<close> leaving during the send to it shifts the list
  under the walk: socket \<open>2\<close>, a member from start to end and not the sender, gets
  no send call, while the undisturbed broadcast reaches all three.
\<close>

theorem leave_during_broadcast_skips_a_member:
  "room_of three_sockets ''U'' = [1, 2, 3]
   \<and> fst (snd (broadcast_to_user healthy three_sockets ''U'' (JStr ''ping'') None [[Leave 1]])) =
       [Sent 1 (JStr ''ping''), Sent 3 (JStr ''ping'')]
   \<and> 2 \<notin> targets (fst (snd
         (broadcast_to_user healthy three_sockets ''U'' (JStr ''ping'') None [[Leave 1]])))
   \<and> room_of (snd (snd
         (broadcast_to_user healthy three_sockets ''U'' (JStr ''ping'') None [[Leave 1]]))) ''U'' =
       [2, 3]
   \<and> fst (snd (broadcast_to_user healthy three_sockets ''U'' (JStr ''ping'') None [])) =
       [Sent 1 (JStr ''ping''), Sent 2 (JStr ''ping''), Sent 3 (JStr ''ping'')]"
  by (simp add: broadcast_to_user_def broadcast_walk.simps disconnect_def room_of_def
        three_sockets_def try_send_json_def healthy_def targets_def Let_def)

section \<open>Best-effort delivery\<close>

text \<open>
  Claim C8, evaluated on the code. The send to socket \<open>1\<close> raises; the exception is
  caught and the broadcast returns normally. Socket \<open>1\<close> has closed, so its endpoint
  runs \<^verbatim>\<open>disconnect\<close> during that send, and the walk passes over socket \<open>2\<close>: a
  connection other than the failing one that does not receive the message.
\<close>

theorem failed_send_with_leave_starves_a_healthy_connection:
  "socket_1_closed 1 (JStr ''ping'') = Some ''closed''
   \<and> socket_1_closed 2 (JStr ''ping'') = None
   \<and> room_of three_sockets ''U'' = [1, 2, 3]
   \<and> fst (broadcast_to_user socket_1_closed three_sockets ''U'' (JStr ''ping'') None [[Leave 1]]) =
       Returned ()
   \<and> fst (snd (broadcast_to_user socket_1_closed three_sockets ''U'' (JStr ''ping'') None
         [[Leave 1]])) =
       [SendFailed 1 (JStr ''ping'') ''closed'', Sent 3 (JStr ''ping'')]
   \<and> delivered (fst (snd (broadcast_to_user socket_1_closed three_sockets ''U'' (JStr ''ping'') None
         [[Leave 1]]))) = [(3, JStr ''ping'')]
   \<and> delivered (fst (snd (broadcast_to_user socket_1_closed three_sockets ''U'' (JStr ''ping'') None
         []))) = [(2, JStr ''ping''), (3, JStr ''ping'')]"
  by (simp add: broadcast_to_user_def broadcast_walk.simps disconnect_def room_of_def
        three_sockets_def try_send_json_def socket_1_closed_def Let_def)

section \<open>Room membership\<close>

text \<open>
  Claim C7. In every state the service can reach: after \<^verbatim>\<open>disconnect\<close> the connection
  is no longer in the user's room; a socket that has joined before (every socket in a
  room has, and the endpoint calls \<^verbatim>\<open>disconnect\<close> for the socket it connected)
  gets no send call in any later broadcast for the user, whatever the other coroutines
  do meanwhile; when it was the only connection, the user has no entry in \<^verbatim>\<open>rooms\<close>
  afterwards. Every existing
  entry is a non-empty list, and this still holds after a \<^verbatim>\<open>connect\<close>, a
  \<^verbatim>\<open>disconnect\<close> and a broadcast.
\<close>

theorem disconnect_removes_connection:
  assumes "reachable s"
  shows "websocket \<notin> set (room_of (disconnect s websocket user_id) user_id)
       \<and> set (room_of s user_id) \<subseteq> accepted s
       \<and> (websocket \<in> accepted s \<longrightarrow>
            websocket \<notin> targets (fst (snd (broadcast_to_user net
               (disconnect s websocket user_id) user_id message sender sched))))
       \<and> (room_of s user_id = [websocket] \<longrightarrow>
            rooms (disconnect s websocket user_id) user_id = None)
       \<and> rooms_inv s
       \<and> rooms_inv (snd (connect s c u))
       \<and> rooms_inv (disconnect s c u)
       \<and> rooms_inv (snd (snd (broadcast_to_user net s u message sender sched)))"
proof -
  from assms have wf: "rooms_wf s" and inv: "rooms_inv s"
    using reachable_inv by auto
  have d: "distinct (room_of s user_id)" using wf by (simp add: rooms_wf_def)
  have m: "set (room_of s user_id) \<subseteq> accepted s" using wf by (simp add: rooms_wf_def)
  have a: "websocket \<notin> set (room_of (disconnect s websocket user_id) user_id)"
    using d by (simp add: room_of_disconnect)
  have b: "websocket \<in> accepted s \<longrightarrow>
            websocket \<notin> targets (fst (snd (broadcast_to_user net
               (disconnect s websocket user_id) user_id message sender sched)))"
    using a broadcast_keeps_out [of websocket "disconnect s websocket user_id" user_id]
    by (simp add: accepted_disconnect)
  have c: "room_of s user_id = [websocket] \<longrightarrow>
            rooms (disconnect s websocket user_id) user_id = None"
    by (auto simp: disconnect_def room_of_def Let_def split: option.splits)
  have e: "rooms_inv (snd (snd (broadcast_to_user net s u message sender sched)))"
    using reachable_after_broadcast [OF assms] reachable_inv by blast
  show ?thesis
    using a m b c inv e rooms_inv_connect [OF inv] rooms_inv_disconnect [OF inv] by blast
qed

theorem disconnect_removes_connection_witness:
  "reachable (snd (connect initial_server 1 ''U''))
   \<and> 1 \<in> accepted (snd (connect initial_server 1 ''U''))
   \<and> room_of (snd (connect initial_server 1 ''U'')) ''U'' = [1]
   \<and> 1 \<notin> set (room_of (disconnect (snd (connect initial_server 1 ''U'')) 1 ''U'') ''U'')
   \<and> 1 \<notin> targets (fst (snd (broadcast_to_user healthy
         (disconnect (snd (connect initial_server 1 ''U'')) 1 ''U'') ''U'' (JStr ''ping'') None
         [[Join 1]])))
   \<and> rooms (disconnect (snd (connect initial_server 1 ''U'')) 1 ''U'') ''U'' = None
   \<and> rooms_inv (snd (connect initial_server 1 ''U''))"
proof -
  have r: "reachable (snd (connect initial_server 1 ''U''))"
    by (rule reachable.joined [OF reachable.start])
  have acc: "1 \<in> accepted (snd (connect initial_server 1 ''U''))"
    by (simp add: accepted_connect)
  have room: "room_of (snd (connect initial_server 1 ''U'')) ''U'' = [1]"
    by (simp add: room_of_connect) (simp add: initial_server_def room_of_def)
  show ?thesis
    using r acc room
      disconnect_removes_connection
        [OF r, of 1 "''U''" healthy "JStr ''ping''" None "[[Join 1]]" 1 "''U''"]
    by blast
qed

text \<open>
  Claim C9. The room behaves as a set. Joining a socket that is already in the room
  changes nothing (the handshake of an accepted socket raises before the append), and
  joining twice leaves the state that joining once leaves. In every state the service can
  reach no room holds a socket twice, and no broadcast makes more than one send call to
  the same connection, whatever the other coroutines do meanwhile.
\<close>

theorem room_holds_each_connection_once:
  assumes "reachable s"
  shows "(websocket \<in> set (room_of s user_id) \<longrightarrow>
            connect s websocket user_id = (Raised ''RuntimeError'', s))
       \<and> snd (connect (snd (connect s websocket user_id)) websocket user_id) =
           snd (connect s websocket user_id)
       \<and> distinct (room_of s user_id)
       \<and> distinct (map fst (send_calls (fst (snd
            (broadcast_to_user net s user_id message sender sched)))))"
proof -
  from assms have wf: "rooms_wf s" using reachable_inv by auto
  have a: "websocket \<in> set (room_of s user_id) \<longrightarrow>
            connect s websocket user_id = (Raised ''RuntimeError'', s)"
    using wf by (auto simp: rooms_wf_def connect_def)
  have "websocket \<in> accepted (snd (connect s websocket user_id))"
    by (simp add: accepted_connect)
  then have b: "snd (connect (snd (connect s websocket user_id)) websocket user_id) =
           snd (connect s websocket user_id)"
    by (simp add: connect_def [of "snd (connect s websocket user_id)"])
  have c: "distinct (room_of s user_id)" using wf by (simp add: rooms_wf_def)
  show ?thesis using a b c broadcast_visits_once [OF wf] by blast
qed

theorem room_holds_each_connection_once_witness:
  "reachable (snd (connect (snd (connect initial_server 1 ''U'')) 2 ''U''))
   \<and> 1 \<in> set (room_of (snd (connect (snd (connect initial_server 1 ''U'')) 2 ''U'')) ''U'')
   \<and> room_of (snd (connect (snd (connect initial_server 1 ''U'')) 2 ''U'')) ''U'' = [1, 2]
   \<and> connect (snd (connect (snd (connect initial_server 1 ''U'')) 2 ''U'')) 1 ''U'' =
       (Raised ''RuntimeError'', snd (connect (snd (connect initial_server 1 ''U'')) 2 ''U''))
   \<and> distinct (map fst (send_calls (fst (snd (broadcast_to_user healthy
        (snd (connect (snd (connect initial_server 1 ''U'')) 2 ''U'')) ''U'' (JStr ''ping'') None
        [[Leave 1, Join 3]])))))"
proof -
  have r: "reachable (snd (connect (snd (connect initial_server 1 ''U'')) 2 ''U''))"
    by (intro reachable.joined reachable.start)
  have room: "room_of (snd (connect (snd (connect initial_server 1 ''U'')) 2 ''U'')) ''U'' = [1, 2]"
    by (simp add: room_of_connect accepted_connect)
       (simp add: initial_server_def room_of_def)
  have m: "1 \<in> set (room_of (snd (connect (snd (connect initial_server 1 ''U'')) 2 ''U'')) ''U'')"
    unfolding room by simp
  show ?thesis
    using r room m
      room_holds_each_connection_once
        [OF r, of 1 "''U''" healthy "JStr ''ping''" None "[[Leave 1, Join 3]]"]
    by blast
qed

section \<open>The relay of the WebSocket endpoint\<close>

text \<open>
  Claim C1, evaluated on the code. In the scenario, socket \<open>2\<close> sends a playback
  update in the name of device \<open>D2\<close>, which is not the active device.
  \<^verbatim>\<open>handle_playback_update\<close> rejects it and answers the sender only; the endpoint
  never calls it and relays the frame to socket \<open>1\<close> as it came.
\<close>

theorem websocket_endpoint_relays_without_arbitration:
  "\<not> validate_device_control scenario_registry ''U'' ''D2''
   \<and> handle_playback_update healthy path_checking_store scenario_registry scenario_server
        ''U'' ''D2'' scenario_state (Some 2) [] =
       (Returned False, [Sent 2 (playback_controlled_elsewhere (Some ''D1''))])
   \<and> fst (snd (websocket_endpoint healthy \<lparr>rooms = [''U'' \<mapsto> [1]], accepted = {1}\<rparr> 2 ''U''
        [(JObj [(''type'', JStr ''playback_state_update''), (''device_id'', JStr ''D2''),
                (''state'', JObj scenario_state)], [])])) =
       [Sent 1 (JObj [(''type'', JStr ''playback_state_update''), (''device_id'', JStr ''D2''),
                      (''state'', JObj scenario_state)])]"
  by (simp add: validate_device_control_def get_active_device_def scenario_registry_def
        handle_playback_update_def websocket_endpoint_def connect_def room_of_def
        broadcast_to_user_def broadcast_walk.simps try_send_json_def healthy_def Let_def)

end
